theory Spec2Isabelle
  imports Main "HOL-Library.Sublist" "HOL-Library.AList"
begin

section \<open>Go strings and the library functions the program calls\<close>

text \<open>
  A Go string is a sequence of bytes; it is modelled as \<^typ>\<open>string\<close>, a list of 8-bit
  characters. The program calls three functions of Go's \<^verbatim>\<open>strings\<close> package:
  \<^verbatim>\<open>Split\<close>, \<^verbatim>\<open>TrimSpace\<close> and (through \<^verbatim>\<open>Split\<close>) \<^verbatim>\<open>Index\<close>. They are modelled
  here after the library's documented behaviour.
\<close>

definition NL :: string where
  "NL = [CHR 0x0A]"

text \<open>
  \<^verbatim>\<open>strings.Index(s, sep)\<close>: the byte index of the first instance of \<open>sep\<close> in \<open>s\<close>;
  Go's \<open>-1\<close> is \<open>None\<close>.
\<close>

fun strings_Index :: "string \<Rightarrow> string \<Rightarrow> nat option" where
  "strings_Index [] sep = (if sep = [] then Some 0 else None)"
| "strings_Index (c # s) sep =
     (if prefix sep (c # s) then Some 0 else map_option Suc (strings_Index s sep))"

lemma strings_Index_nonempty: "strings_Index s (d # ds) = Some m \<Longrightarrow> s \<noteq> []"
  by (cases s) auto

text \<open>
  \<^verbatim>\<open>strings.Split(s, sep)\<close> for a non-empty separator, as the loop of \<^verbatim>\<open>genSplit\<close>:
  cut at the first instance of \<open>sep\<close>, continue behind it, and end with the rest.
  The program passes the separators \<^verbatim>\<open>"References:"\<close> and \<^verbatim>\<open>"\n"\<close> only; the
  library's separate case of an empty separator (one string per UTF-8 sequence) has no
  equation here.
\<close>

function (sequential) strings_Split :: "string \<Rightarrow> string \<Rightarrow> string list" where
  "strings_Split s (d # ds) =
     (case strings_Index s (d # ds) of
        None \<Rightarrow> [s]
      | Some m \<Rightarrow> take m s # strings_Split (drop (m + length (d # ds)) s) (d # ds))"
  by pat_completeness auto
termination
  by (relation "measure (\<lambda>(s, sep). length s)")
     (auto dest: strings_Index_nonempty)

declare strings_Split.simps [simp del]

text \<open>
  \<^verbatim>\<open>unicode.IsSpace\<close> holds of the code points with Unicode's White_Space property:
  \<^verbatim>\<open>'\t', '\n', '\v', '\f', '\r', ' '\<close>, U+0085, U+00A0, U+1680, U+2000 to U+200A,
  U+2028, U+2029, U+202F, U+205F and U+3000. \<open>spaceSeqs\<close> lists their UTF-8 encodings,
  in this order.
\<close>

definition spaceSeqs :: "string list" where
  "spaceSeqs =
     [[CHR 0x09], [CHR 0x0A], [CHR 0x0B], [CHR 0x0C], [CHR 0x0D], [CHR 0x20],
      [CHR 0xC2, CHR 0x85], [CHR 0xC2, CHR 0xA0],
      [CHR 0xE1, CHR 0x9A, CHR 0x80],
      [CHR 0xE2, CHR 0x80, CHR 0x80], [CHR 0xE2, CHR 0x80, CHR 0x81],
      [CHR 0xE2, CHR 0x80, CHR 0x82], [CHR 0xE2, CHR 0x80, CHR 0x83],
      [CHR 0xE2, CHR 0x80, CHR 0x84], [CHR 0xE2, CHR 0x80, CHR 0x85],
      [CHR 0xE2, CHR 0x80, CHR 0x86], [CHR 0xE2, CHR 0x80, CHR 0x87],
      [CHR 0xE2, CHR 0x80, CHR 0x88], [CHR 0xE2, CHR 0x80, CHR 0x89],
      [CHR 0xE2, CHR 0x80, CHR 0x8A],
      [CHR 0xE2, CHR 0x80, CHR 0xA8], [CHR 0xE2, CHR 0x80, CHR 0xA9],
      [CHR 0xE2, CHR 0x80, CHR 0xAF],
      [CHR 0xE2, CHR 0x81, CHR 0x9F],
      [CHR 0xE3, CHR 0x80, CHR 0x80]]"

text \<open>
  \<^verbatim>\<open>strings.TrimSpace(s)\<close> removes all leading and trailing white space, as defined by
  Unicode. From the front the library decodes one code point after the other while
  \<^verbatim>\<open>unicode.IsSpace\<close> holds; a decoded code point is white space exactly when the bytes at
  that position start with the UTF-8 encoding of one. From the back it does the same with
  \<^verbatim>\<open>utf8.DecodeLastRuneInString\<close>, which yields a white-space code point exactly when the
  bytes end with the encoding of one. Bytes that are not valid UTF-8 decode to U+FFFD,
  which is no white space, and stay.
\<close>

definition leadingSpace :: "string \<Rightarrow> string option" where
  "leadingSpace s = find (\<lambda>t. prefix t s) spaceSeqs"

definition trailingSpace :: "string \<Rightarrow> string option" where
  "trailingSpace s = find (\<lambda>t. suffix t s) spaceSeqs"

lemma leadingSpace_SomeD:
  "leadingSpace s = Some t \<Longrightarrow> t \<in> set spaceSeqs \<and> prefix t s"
  unfolding leadingSpace_def by (auto simp: find_Some_iff)

lemma trailingSpace_SomeD:
  "trailingSpace s = Some t \<Longrightarrow> t \<in> set spaceSeqs \<and> suffix t s"
  unfolding trailingSpace_def by (auto simp: find_Some_iff)

lemma spaceSeqs_nonempty: "t \<in> set spaceSeqs \<Longrightarrow> t \<noteq> []"
  by (auto simp: spaceSeqs_def)

lemma leadingSpace_shorter:
  "leadingSpace s = Some t \<Longrightarrow> length (drop (length t) s) < length s"
  using leadingSpace_SomeD [of s t] spaceSeqs_nonempty [of t] by (cases s) auto

lemma trailingSpace_shorter:
  "trailingSpace s = Some t \<Longrightarrow> length (take (length s - length t) s) < length s"
  using trailingSpace_SomeD [of s t] spaceSeqs_nonempty [of t] by (cases s) auto

function trimLeftSpace :: "string \<Rightarrow> string" where
  "trimLeftSpace s =
     (case leadingSpace s of
        None \<Rightarrow> s
      | Some t \<Rightarrow> trimLeftSpace (drop (length t) s))"
  by pat_completeness auto
termination
  by (relation "measure length") (auto dest: leadingSpace_shorter)

function trimRightSpace :: "string \<Rightarrow> string" where
  "trimRightSpace s =
     (case trailingSpace s of
        None \<Rightarrow> s
      | Some t \<Rightarrow> trimRightSpace (take (length s - length t) s))"
  by pat_completeness auto
termination
  by (relation "measure length") (auto dest: trailingSpace_shorter)

declare trimLeftSpace.simps [simp del] trimRightSpace.simps [simp del]

definition strings_TrimSpace :: "string \<Rightarrow> string" where
  "strings_TrimSpace s = trimRightSpace (trimLeftSpace s)"

section \<open>The program\<close>

subsection \<open>Data\<close>

record ChatRequest =
  Message :: string

record ChatResponse =
  Response :: string
  References :: "string list"

text \<open>
  \<^verbatim>\<open>ChatChoice\<close>: the nested struct \<^verbatim>\<open>Message\<close> has the one field \<^verbatim>\<open>Content\<close>.
  \<^verbatim>\<open>Index\<close> and \<^verbatim>\<open>Created\<close> are decoded and never computed with.
\<close>

record ChatChoice =
  Message_Content :: string
  Index :: int
  FinishReason :: string

record AzureResponse =
  ID :: string
  Object :: string
  Created :: int
  Model :: string
  Choices :: "ChatChoice list"

subsection \<open>The prompt and the split of the answer\<close>

text \<open>\<^verbatim>\<open>fmt.Sprintf\<close> with the one verb \<^verbatim>\<open>%s\<close> at the start of the format.\<close>

definition formatPromptWithReferenceRequest :: "string \<Rightarrow> string" where
  "formatPromptWithReferenceRequest message =
     message @ NL @
       NL @
       ''Please provide a detailed response with references. Include:'' @ NL @
       ''1. A clear explanation'' @ NL @
       ''2. Supporting evidence'' @ NL @
       ''3. Specific citations'' @ NL @
       ''4. A numbered list of references at the end'' @ NL @
       NL @
       ''Format references using a standard academic format.''"

text \<open>
  \<^verbatim>\<open>parseResponseAndReferences\<close>: the loop over the lines appends to \<open>references\<close>,
  which starts as the nil slice; a nil slice and an empty one are both \<open>[]\<close>.
\<close>

definition parseResponseAndReferences :: "string \<Rightarrow> string \<times> string list" where
  "parseResponseAndReferences content =
     (let parts = strings_Split content ''References:'' in
      if length parts < 2 then (content, [])
      else
        let mainContent = strings_TrimSpace (parts ! 0);
            referencesText = strings_TrimSpace (parts ! 1);
            references =
              foldl (\<lambda>references line.
                       let trimmed = strings_TrimSpace line in
                       if trimmed \<noteq> [] then references @ [trimmed] else references)
                    [] (strings_Split referencesText NL)
        in (mainContent, references))"

text \<open>
  For the statements about the reference list: the lines of a text, each trimmed, the
  blank ones dropped, in their order.
\<close>

definition refLines :: "string \<Rightarrow> string list" where
  "refLines s = filter (\<lambda>l. l \<noteq> []) (map strings_TrimSpace (strings_Split s NL))"

subsection \<open>The handler and what it talks to\<close>

text \<open>
  The value that the handler passes to \<^verbatim>\<open>json.Marshal\<close>: nested Go maps and slices of
  strings, numbers and \<^verbatim>\<open>nil\<close>. \<open>JDecimal m k\<close> is the decimal literal \<open>m / 10^k\<close>.
\<close>

datatype json =
    JNull
  | JString string
  | JInt int
  | JDecimal int nat
  | JArray "json list"
  | JObject "(string \<times> json) list"

definition systemPrompt :: string where
  "systemPrompt =
     ''You are a helpful assistant that provides detailed, accurate information with references.'' @ NL @
     ''            When providing information:'' @ NL @
     ''            1. Include relevant citations and sources'' @ NL @
     ''            2. Use a consistent citation format'' @ NL @
     ''            3. List all references at the end of your response'' @ NL @
     ''            4. Prefer academic sources, official documentation, and reliable websites'' @ NL @
     ''            5. Format your response as follows:'' @ NL @
     ''                - Main answer'' @ NL @
     ''                - Supporting details'' @ NL @
     ''                - References (numbered list)''"

text \<open>
  The map literal \<^verbatim>\<open>data\<close> of \<^verbatim>\<open>chatHandler\<close>, with the environment and the message
  of the request as parameters.
\<close>

definition requestData :: "(string \<Rightarrow> string) \<Rightarrow> string \<Rightarrow> json" where
  "requestData getenv message =
     JObject [
       (''messages'', JArray [
          JObject [(''role'', JString ''system''), (''content'', JString systemPrompt)],
          JObject [(''role'', JString ''user''),
                   (''content'', JString (formatPromptWithReferenceRequest message))]]),
       (''data_sources'', JArray [
          JObject [
            (''type'', JString ''azure_search''),
            (''parameters'', JObject [
               (''endpoint'', JString (getenv ''AZURE_SEARCH_ENDPOINT'')),
               (''key'', JString (getenv ''AZURE_SEARCH_KEY'')),
               (''index_name'', JString (getenv ''AZURE_SEARCH_INDEX'')),
               (''query_type'', JString ''simple''),
               (''semantic_configuration'', JString ''default''),
               (''role_information'', JString
                  ''You are an AI assistant that helps people with questions using the provided documentation.''),
               (''filter'', JNull),
               (''strictness'', JInt 3),
               (''authentication'', JObject [
                  (''type'', JString ''api_key''),
                  (''key'', JString (getenv ''AZURE_SEARCH_KEY''))])])]]),
       (''max_tokens'', JInt 2000),
       (''temperature'', JDecimal 9 1),
       (''top_p'', JDecimal 95 2),
       (''frequency_penalty'', JDecimal 5 1),
       (''presence_penalty'', JDecimal 5 1)]"



text \<open>
  Go's errors carry a message. An outbound request as \<^verbatim>\<open>http.NewRequest\<close> builds it and
  \<^verbatim>\<open>Header.Set\<close> completes it; the upstream's answer as far as the handler reads it:
  \<open>BodyBytes\<close> is what \<^verbatim>\<open>ioutil.ReadAll(resp.Body)\<close> returns.
\<close>

datatype error = Error string

record Request =
  Method :: string
  URL :: string
  Header :: "(string \<times> string) list"
  Body :: string

record HttpResponse =
  StatusCode :: nat
  BodyBytes :: "error + string"

text \<open>
  Everything outside the program that \<^verbatim>\<open>chatHandler\<close> calls, as functions:
  \<^item> \<open>Decode\<close>: \<^verbatim>\<open>json.NewDecoder(r.Body).Decode(&chatRequest)\<close> on the body of the inbound
    request;
  \<^item> \<open>Getenv\<close>: \<^verbatim>\<open>os.Getenv\<close>;
  \<^item> \<open>Marshal\<close>: \<^verbatim>\<open>json.Marshal\<close>;
  \<^item> \<open>ParseURL\<close>: the error, if any, with which \<^verbatim>\<open>http.NewRequest\<close> rejects a URL;
  \<^item> \<open>Do\<close>: \<^verbatim>\<open>client.Do\<close>, the upstream;
  \<^item> \<open>Unmarshal\<close>: \<^verbatim>\<open>json.Unmarshal\<close> into an \<^verbatim>\<open>AzureResponse\<close>.
\<close>

record world =
  Decode :: "string \<Rightarrow> error + ChatRequest"
  Getenv :: "string \<Rightarrow> string"
  Marshal :: "json \<Rightarrow> error + string"
  ParseURL :: "string \<Rightarrow> error option"
  Do :: "Request \<Rightarrow> error + HttpResponse"
  Unmarshal :: "string \<Rightarrow> error + AzureResponse"

text \<open>
  \<^verbatim>\<open>http.NewRequest\<close> fails on a method that is no token (\<^verbatim>\<open>POST\<close> is one) and on a
  URL that does not parse.
\<close>

definition http_NewRequest :: "world \<Rightarrow> string \<Rightarrow> string \<Rightarrow> string \<Rightarrow> error + Request" where
  "http_NewRequest W method url body =
     (case ParseURL W url of
        Some err \<Rightarrow> Inl err
      | None \<Rightarrow> Inr \<lparr>Method = method, URL = url, Header = [], Body = body\<rparr>)"

text \<open>\<^verbatim>\<open>Header.Set\<close> replaces the values of the key.\<close>

definition Header_Set :: "string \<Rightarrow> string \<Rightarrow> Request \<Rightarrow> Request" where
  "Header_Set key val req = req\<lparr>Header := AList.update key val (Header req)\<rparr>"

definition StatusOK :: nat where "StatusOK = 200"
definition StatusBadRequest :: nat where "StatusBadRequest = 400"
definition StatusInternalServerError :: nat where "StatusInternalServerError = 500"

text \<open>
  What the handler writes to the \<^verbatim>\<open>http.ResponseWriter\<close>: either one call
  \<^verbatim>\<open>http.Error(w, msg, code)\<close>, which replies with the code and the message (the library
  sends it as one line of plain text), or the header \<^verbatim>\<open>Content-Type: application/json\<close>
  and the JSON encoding of a \<^verbatim>\<open>ChatResponse\<close>, with the status 200 of a first write.
  The reply is kept as the arguments of these calls.
\<close>

datatype reply =
    HttpError string nat
  | JsonBody ChatResponse

fun status :: "reply \<Rightarrow> nat" where
  "status (HttpError msg code) = code"
| "status (JsonBody r) = StatusOK"

text \<open>
  One run of the handler: the reply, the requests handed to \<^verbatim>\<open>client.Do\<close>, the lines
  given to \<^verbatim>\<open>log.Printf\<close>, and whether the deferred \<^verbatim>\<open>resp.Body.Close()\<close> has run.
\<close>

record outcome =
  reply :: reply
  calls :: "Request list"
  logged :: "string list"
  closed :: bool

definition chatHandler :: "world \<Rightarrow> string \<Rightarrow> outcome" where
  "chatHandler W body =
     (case Decode W body of
        Inl err \<Rightarrow>
          \<lparr>reply = HttpError ''Invalid request payload'' StatusBadRequest,
           calls = [], logged = [], closed = False\<rparr>
      | Inr chatRequest \<Rightarrow>
          let apiKey = Getenv W ''AZURE_API_KEY'';
              endpoint = Getenv W ''AZURE_ENDPOINT'';
              data = requestData (Getenv W) (Message chatRequest)
          in
          (case Marshal W data of
             Inl err \<Rightarrow>
               \<lparr>reply = HttpError ''Failed to marshal request data'' StatusInternalServerError,
                calls = [], logged = [], closed = False\<rparr>
           | Inr jsonData \<Rightarrow>
               (case http_NewRequest W ''POST'' endpoint jsonData of
                  Inl err \<Rightarrow>
                    \<lparr>reply = HttpError ''Failed to create request'' StatusInternalServerError,
                     calls = [], logged = [], closed = False\<rparr>
                | Inr req0 \<Rightarrow>
                    let req = Header_Set ''api-key'' apiKey
                                (Header_Set ''Content-Type'' ''application/json'' req0)
                    in
                    (case Do W req of
                       Inl err \<Rightarrow>
                         \<lparr>reply = HttpError ''Failed to send request to Azure OpenAI''
                                    StatusInternalServerError,
                          calls = [req], logged = [], closed = False\<rparr>
                     | Inr resp \<Rightarrow>
                         (case BodyBytes resp of
                            Inl err \<Rightarrow>
                              \<lparr>reply = HttpError ''Failed to read response from Azure OpenAI''
                                         StatusInternalServerError,
                               calls = [req], logged = [], closed = True\<rparr>
                          | Inr body' \<Rightarrow>
                              let raw = ''Raw response from Azure: '' @ body' in
                              (case Unmarshal W body' of
                                 Inl (Error msg) \<Rightarrow>
                                   \<lparr>reply = HttpError ''Failed to unmarshal response data''
                                              StatusInternalServerError,
                                    calls = [req],
                                    logged = [raw, ''Unmarshal error: '' @ msg],
                                    closed = True\<rparr>
                               | Inr azureResponse \<Rightarrow>
                                   if length (Choices azureResponse) = 0 then
                                     \<lparr>reply = HttpError ''No response choices returned''
                                                StatusInternalServerError,
                                      calls = [req], logged = [raw], closed = True\<rparr>
                                   else
                                     let responseContent =
                                           Message_Content (Choices azureResponse ! 0);
                                         (mainContent, references) =
                                           parseResponseAndReferences responseContent;
                                         chatResponse =
                                           \<lparr>Response = mainContent, References = references\<rparr>
                                     in \<lparr>reply = JsonBody chatResponse,
                                         calls = [req], logged = [raw], closed = True\<rparr>))))))"

text \<open>
  A world for running the handler on examples: the decoder's result, the environment and
  the upstream's decoded answer are given; \<open>Marshal\<close> succeeds, \<open>ParseURL\<close> rejects the URL
  \<^verbatim>\<open>:\<close> (Go: missing protocol scheme), and the upstream answers every request.
\<close>

definition exampleWorld ::
    "(error + ChatRequest) \<Rightarrow> (string \<Rightarrow> string) \<Rightarrow> (error + AzureResponse) \<Rightarrow> world" where
  "exampleWorld decoded env answer =
     \<lparr>Decode = (\<lambda>body. decoded),
      Getenv = env,
      Marshal = (\<lambda>data. Inr ''{}''),
      ParseURL = (\<lambda>url. if url = '':'' then Some (Error ''missing protocol scheme'') else None),
      Do = (\<lambda>req. Inr \<lparr>StatusCode = 200, BodyBytes = Inr ''{}''\<rparr>),
      Unmarshal = (\<lambda>bytes. answer)\<rparr>"

definition exampleEnv :: "string \<Rightarrow> string" where
  "exampleEnv key = (if key = ''AZURE_ENDPOINT'' then ''https://example.test/chat'' else [])"



definition exampleBody :: string where
  "exampleBody =
     ''{'' @ [CHR 0x22] @ ''message'' @ [CHR 0x22] @ '': '' @ [CHR 0x22] @ ''hi'' @ [CHR 0x22] @ ''}''"

definition noChoices :: AzureResponse where
  "noChoices = \<lparr>ID = ''1'', Object = ''chat.completion'', Created = 0, Model = ''gpt'', Choices = []\<rparr>"



section \<open>Facts about the library functions\<close>

lemma strings_Index_None_iff: "strings_Index s sep = None \<longleftrightarrow> \<not> sublist sep s"
  by (induction s) (auto simp: sublist_Cons_right)

lemma strings_Index_SomeD:
  "strings_Index s sep = Some m \<Longrightarrow> m \<le> length s \<and> prefix sep (drop m s)"
  by (induction s arbitrary: m) (auto split: if_splits)

lemma strings_Index_least:
  "strings_Index s sep = Some m \<Longrightarrow> j < m \<Longrightarrow> \<not> prefix sep (drop j s)"
proof (induction s arbitrary: m j)
  case Nil
  then show ?case by (simp split: if_splits)
next
  case (Cons c s)
  then show ?case by (cases j) (auto split: if_splits)
qed

lemma strings_Index_take_free:
  assumes "strings_Index s (d # ds) = Some m"
  shows "\<not> sublist (d # ds) (take m s)"
proof
  assume "sublist (d # ds) (take m s)"
  then obtain ps ss where eq: "take m s = ps @ (d # ds) @ ss" by (auto simp: sublist_def)
  have "length (take m s) \<le> m" by simp
  then have lt: "length ps < m" unfolding eq by simp
  have "s = take m s @ drop m s" by simp
  then have "s = ps @ ((d # ds) @ ss @ drop m s)" unfolding eq by simp
  then have "drop (length ps) s = drop (length ps) (ps @ ((d # ds) @ ss @ drop m s))" by simp
  then have "drop (length ps) s = (d # ds) @ ss @ drop m s" by simp
  then have "prefix (d # ds) (drop (length ps) s)" by simp
  with strings_Index_least [OF assms lt] show False by blast
qed

lemma prefix_snoc_fresh:
  assumes z: "z \<notin> set u" and p: "prefix (u @ [z]) (a @ u @ z # b)" and a: "a \<noteq> []"
  shows "prefix (u @ [z]) a"
proof -
  from p consider "prefix (u @ [z]) a" | us where "u @ [z] = a @ us" "prefix us (u @ z # b)"
    by (auto simp: prefix_append)
  then show ?thesis
  proof cases
    case 1
    then show ?thesis .
  next
    case 2
    show ?thesis
    proof (cases "us = []")
      case True
      with 2 show ?thesis by simp
    next
      case False
      from 2(1) have len: "length u + 1 = length a + length us"
        by (metis length_append length_append_singleton Suc_eq_plus1)
      with a have "length us \<le> length u" by (cases a) auto
      with 2(2) have "prefix us u" by (auto simp: prefix_append prefix_length_le dest: prefix_length_le)
      then have "set us \<subseteq> set u" by (auto simp: prefix_def)
      moreover from 2(1) False have "last us = z" by (metis last_appendR last_snoc)
      moreover from False have "last us \<in> set us" by simp
      ultimately show ?thesis using z by blast
    qed
  qed
qed

lemma strings_Index_first:
  assumes "z \<notin> set u" and "\<not> sublist (u @ [z]) a"
  shows "strings_Index (a @ (u @ [z]) @ b) (u @ [z]) = Some (length a)"
  using assms(2)
proof (induction a)
  case Nil
  then show ?case by (cases u) auto
next
  case (Cons x a)
  then have np: "\<not> prefix (u @ [z]) (x # a)" and ns: "\<not> sublist (u @ [z]) a"
    by (auto simp: sublist_Cons_right)
  have "\<not> prefix (u @ [z]) ((x # a) @ u @ z # b)"
    using prefix_snoc_fresh [OF assms(1), of "x # a" b] np by blast
  then show ?case using Cons.IH [OF ns] by simp
qed

lemma strings_Split_first:
  assumes "z \<notin> set u" and "\<not> sublist (u @ [z]) a"
  shows "strings_Split (a @ (u @ [z]) @ b) (u @ [z]) = a # strings_Split b (u @ [z])"
proof -
  obtain d ds where sep: "u @ [z] = d # ds" by (cases u) auto
  show ?thesis
    using strings_Index_first [OF assms, of b]
    unfolding sep by (simp add: strings_Split.simps)
qed

lemma strings_Split_none:
  "\<not> sublist (d # ds) s \<Longrightarrow> strings_Split s (d # ds) = [s]"
  using strings_Index_None_iff [of s "d # ds"] by (simp add: strings_Split.simps)

lemma spaceSeqs_sync:
  "t \<in> set spaceSeqs \<Longrightarrow> u \<in> set spaceSeqs \<Longrightarrow> hd t \<notin> set (tl u)"
  unfolding spaceSeqs_def by (elim set_ConsD [elim_format] disjE; simp)

lemma spaceSeqs_prefix_free:
  "t \<in> set spaceSeqs \<Longrightarrow> u \<in> set spaceSeqs \<Longrightarrow> prefix t u \<Longrightarrow> t = u"
  unfolding spaceSeqs_def by (elim set_ConsD [elim_format] disjE; simp)

lemma spaceSeqs_suffix_free:
  "t \<in> set spaceSeqs \<Longrightarrow> u \<in> set spaceSeqs \<Longrightarrow> suffix t u \<Longrightarrow> t = u"
  unfolding spaceSeqs_def by (elim set_ConsD [elim_format] disjE; simp add: suffix_to_prefix)

lemma NL_in_spaceSeqs: "NL \<in> set spaceSeqs"
  by (simp add: spaceSeqs_def NL_def)

lemma spaceSeqs_NL: "t \<in> set spaceSeqs \<Longrightarrow> CHR 0x0A \<in> set t \<Longrightarrow> t = NL"
  by (auto simp: spaceSeqs_def NL_def)

lemma leadingSpace_None_iff:
  "leadingSpace s = None \<longleftrightarrow> (\<forall>t\<in>set spaceSeqs. \<not> prefix t s)"
  unfolding leadingSpace_def by (auto simp: find_None_iff)

lemma trailingSpace_None_iff:
  "trailingSpace s = None \<longleftrightarrow> (\<forall>t\<in>set spaceSeqs. \<not> suffix t s)"
  unfolding trailingSpace_def by (auto simp: find_None_iff)

lemma leadingSpace_SomeI:
  assumes "t \<in> set spaceSeqs" and "prefix t s"
  shows "leadingSpace s = Some t"
proof (cases "leadingSpace s")
  case None
  with assms show ?thesis by (simp add: leadingSpace_None_iff)
next
  case (Some u)
  then have u: "u \<in> set spaceSeqs" "prefix u s" by (auto dest: leadingSpace_SomeD)
  with assms(2) have "prefix t u \<or> prefix u t" using prefix_same_cases by blast
  with assms(1) u(1) have "t = u" by (auto dest: spaceSeqs_prefix_free)
  with Some show ?thesis by simp
qed

lemma trailingSpace_SomeI:
  assumes "t \<in> set spaceSeqs" and "suffix t s"
  shows "trailingSpace s = Some t"
proof (cases "trailingSpace s")
  case None
  with assms show ?thesis by (simp add: trailingSpace_None_iff)
next
  case (Some u)
  then have u: "u \<in> set spaceSeqs" "suffix u s" by (auto dest: trailingSpace_SomeD)
  with assms(2) have "suffix t u \<or> suffix u t" using suffix_same_cases by blast
  with assms(1) u(1) have "t = u" by (auto dest: spaceSeqs_suffix_free)
  with Some show ?thesis by simp
qed

lemma trimLeftSpace_token: "t \<in> set spaceSeqs \<Longrightarrow> trimLeftSpace (t @ s) = trimLeftSpace s"
  using leadingSpace_SomeI [of t "t @ s"] by (subst trimLeftSpace.simps) simp

lemma trimRightSpace_token: "t \<in> set spaceSeqs \<Longrightarrow> trimRightSpace (s @ t) = trimRightSpace s"
  using trailingSpace_SomeI [of t "s @ t"] by (subst trimRightSpace.simps) (simp add: suffix_def)

lemma trimLeftSpace_fix: "leadingSpace s = None \<Longrightarrow> trimLeftSpace s = s"
  by (subst trimLeftSpace.simps) simp

lemma trimRightSpace_fix: "trailingSpace s = None \<Longrightarrow> trimRightSpace s = s"
  by (subst trimRightSpace.simps) simp

lemma trimLeftSpace_Nil [simp]: "trimLeftSpace [] = []"
  by (rule trimLeftSpace_fix) (auto simp: leadingSpace_None_iff dest: spaceSeqs_nonempty)

lemma trimRightSpace_Nil [simp]: "trimRightSpace [] = []"
  by (rule trimRightSpace_fix) (auto simp: trailingSpace_None_iff dest: spaceSeqs_nonempty)

lemma leadingSpace_trimLeftSpace: "leadingSpace (trimLeftSpace s) = None"
proof (induction s rule: trimLeftSpace.induct)
  case (1 s)
  then show ?case by (cases "leadingSpace s") (simp_all add: trimLeftSpace.simps [of s])
qed

lemma trailingSpace_trimRightSpace: "trailingSpace (trimRightSpace s) = None"
proof (induction s rule: trimRightSpace.induct)
  case (1 s)
  then show ?case by (cases "trailingSpace s") (simp_all add: trimRightSpace.simps [of s])
qed

lemma suffix_trimLeftSpace: "suffix (trimLeftSpace s) s"
proof (induction s rule: trimLeftSpace.induct)
  case (1 s)
  show ?case
  proof (cases "leadingSpace s")
    case None
    then show ?thesis by (simp add: trimLeftSpace_fix)
  next
    case (Some t)
    with 1 have "suffix (trimLeftSpace (drop (length t) s)) (drop (length t) s)" by simp
    then have "suffix (trimLeftSpace (drop (length t) s)) s"
      using suffix_drop suffix_order.order_trans by blast
    with Some show ?thesis by (simp add: trimLeftSpace.simps [of s])
  qed
qed

lemma prefix_trimRightSpace: "prefix (trimRightSpace s) s"
proof (induction s rule: trimRightSpace.induct)
  case (1 s)
  show ?case
  proof (cases "trailingSpace s")
    case None
    then show ?thesis by (simp add: trimRightSpace_fix)
  next
    case (Some t)
    with 1 have "prefix (trimRightSpace (take (length s - length t) s)) (take (length s - length t) s)"
      by simp
    then have "prefix (trimRightSpace (take (length s - length t) s)) s"
      using take_is_prefix prefix_order.order_trans by blast
    with Some show ?thesis by (simp add: trimRightSpace.simps [of s])
  qed
qed

lemma sublist_strings_TrimSpace: "sublist (strings_TrimSpace s) s"
proof -
  have "sublist (trimRightSpace (trimLeftSpace s)) (trimLeftSpace s)"
    using prefix_trimRightSpace by blast
  moreover have "sublist (trimLeftSpace s) s"
    using suffix_trimLeftSpace by blast
  ultimately show ?thesis
    unfolding strings_TrimSpace_def using sublist_order.order_trans by blast
qed

lemma leadingSpace_prefix_None:
  "leadingSpace s = None \<Longrightarrow> prefix p s \<Longrightarrow> leadingSpace p = None"
  unfolding leadingSpace_None_iff using prefix_order.order_trans by blast

lemma strings_TrimSpace_idem: "strings_TrimSpace (strings_TrimSpace s) = strings_TrimSpace s"
proof -
  let ?r = "trimRightSpace (trimLeftSpace s)"
  have "leadingSpace ?r = None"
    using leadingSpace_prefix_None [OF leadingSpace_trimLeftSpace prefix_trimRightSpace] .
  then have "trimLeftSpace ?r = ?r" by (rule trimLeftSpace_fix)
  moreover have "trimRightSpace ?r = ?r"
    by (rule trimRightSpace_fix) (rule trailingSpace_trimRightSpace)
  ultimately show ?thesis by (simp add: strings_TrimSpace_def)
qed

lemma strings_Index_char_append:
  "strings_Index (s @ y) [n] =
     (case strings_Index s [n] of
        Some m \<Rightarrow> Some m
      | None \<Rightarrow> map_option (\<lambda>k. length s + k) (strings_Index y [n]))"
proof (induction s)
  case Nil
  show ?case by (cases "strings_Index y [n]") simp_all
next
  case (Cons c s)
  then show ?case by (cases "strings_Index y [n]") (auto split: option.splits)
qed

lemma strings_Split_nonempty: "strings_Split s (d # ds) \<noteq> []"
  by (subst strings_Split.simps) (simp split: option.splits)

lemma strings_Split_char_append:
  "strings_Split (s @ y) [n] =
     butlast (strings_Split s [n]) @
     (last (strings_Split s [n]) @ hd (strings_Split y [n])) # tl (strings_Split y [n])"
proof (induction s "[n]" rule: strings_Split.induct)
  case (1 s)
  show ?case
  proof (cases "strings_Index s [n]")
    case None
    then have s: "strings_Split s [n] = [s]" by (simp add: strings_Split.simps)
    show ?thesis
    proof (cases "strings_Index y [n]")
      case None
      with \<open>strings_Index s [n] = None\<close> show ?thesis
        by (simp add: strings_Split.simps strings_Index_char_append)
    next
      case (Some k)
      with \<open>strings_Index s [n] = None\<close> show ?thesis
        by (simp add: strings_Split.simps [of "s @ y"] strings_Split.simps [of y]
            strings_Split.simps [of s] strings_Index_char_append)
    qed
  next
    case (Some m)
    then have m: "m < length s"
      using strings_Index_SomeD [of s "[n]" m] by (cases "m = length s") auto
    have ne: "strings_Split (drop (m + length [n]) s) [n] \<noteq> []"
      by (rule strings_Split_nonempty)
    from Some have ix: "strings_Index (s @ y) [n] = Some m"
      by (simp add: strings_Index_char_append)
    have "strings_Split (s @ y) [n] =
            take m s # strings_Split (drop (m + length [n]) s @ y) [n]"
      using ix m by (simp add: strings_Split.simps [of "s @ y"])
    also have "strings_Split (drop (m + length [n]) s @ y) [n] =
        butlast (strings_Split (drop (m + length [n]) s) [n]) @
        (last (strings_Split (drop (m + length [n]) s) [n]) @ hd (strings_Split y [n])) #
        tl (strings_Split y [n])"
      using 1 [OF Some] .
    finally show ?thesis
      using Some ne by (simp add: strings_Split.simps [of s])
  qed
qed

lemma strings_Split_NL_NL: "strings_Split NL NL = [[], []]"
  by (simp add: NL_def strings_Split.simps)

lemma strings_Split_token:
  assumes "t \<in> set spaceSeqs" and "t \<noteq> NL"
  shows "strings_Split t NL = [t]"
proof -
  have "CHR 0x0A \<notin> set t" using assms spaceSeqs_NL by blast
  then have "\<not> sublist NL t"
    unfolding NL_def by (auto dest: set_mono_sublist)
  then show ?thesis unfolding NL_def by (rule strings_Split_none)
qed

lemma hd_tl_strings_Split:
  "hd (strings_Split s NL) # tl (strings_Split s NL) = strings_Split s NL"
  using strings_Split_nonempty [of s] by (simp add: NL_def)

lemma butlast_last_strings_Split:
  "butlast (strings_Split s NL) @ [last (strings_Split s NL)] = strings_Split s NL"
  using strings_Split_nonempty [of s] by (simp add: NL_def)

lemma strings_TrimSpace_Nil [simp]: "strings_TrimSpace [] = []"
  by (simp add: strings_TrimSpace_def)

lemma strings_TrimSpace_token_left:
  "t \<in> set spaceSeqs \<Longrightarrow> strings_TrimSpace (t @ s) = strings_TrimSpace s"
  by (simp add: strings_TrimSpace_def trimLeftSpace_token)

lemma leadingSpace_append_None:
  assumes none: "leadingSpace l = None" and l: "l \<noteq> []" and t: "t \<in> set spaceSeqs"
  shows "leadingSpace (l @ t) = None"
proof (rule ccontr)
  assume "leadingSpace (l @ t) \<noteq> None"
  then obtain u where "leadingSpace (l @ t) = Some u" by blast
  then have u: "u \<in> set spaceSeqs" "prefix u (l @ t)" by (auto dest: leadingSpace_SomeD)
  from none u(1) have nl: "\<not> prefix u l" by (simp add: leadingSpace_None_iff)
  with u(2) obtain us where us: "u = l @ us" "prefix us t" by (auto simp: prefix_append)
  with nl have ne: "us \<noteq> []" by auto
  with us(2) have "hd us = hd t" by (cases us; cases t) auto
  moreover from us(1) l ne have "hd us \<in> set (tl u)" by (cases l; cases us) auto
  ultimately show False using spaceSeqs_sync [OF t u(1)] by simp
qed

lemma trimLeftSpace_append_token:
  assumes t: "t \<in> set spaceSeqs"
  shows "trimLeftSpace (l @ t) = (if trimLeftSpace l = [] then [] else trimLeftSpace l @ t)"
proof (induction l rule: trimLeftSpace.induct)
  case (1 l)
  show ?case
  proof (cases "leadingSpace l")
    case None
    then have fx: "trimLeftSpace l = l" by (rule trimLeftSpace_fix)
    show ?thesis
    proof (cases "l = []")
      case True
      then show ?thesis using trimLeftSpace_token [OF t, of "[]"] by simp
    next
      case False
      then have "trimLeftSpace (l @ t) = l @ t"
        using leadingSpace_append_None [OF None _ t] by (simp add: trimLeftSpace_fix)
      with fx False show ?thesis by simp
    qed
  next
    case (Some u)
    then have u: "u \<in> set spaceSeqs" "prefix u l" by (auto dest: leadingSpace_SomeD)
    then obtain l' where l': "l = u @ l'" by (auto simp: prefix_def)
    then have d: "drop (length u) l = l'" by simp
    have "trimLeftSpace (l @ t) = trimLeftSpace (l' @ t)"
      unfolding l' using trimLeftSpace_token [OF u(1), of "l' @ t"] by simp
    moreover have "trimLeftSpace l = trimLeftSpace l'"
      unfolding l' by (rule trimLeftSpace_token [OF u(1)])
    ultimately show ?thesis using 1 [OF Some] unfolding d by simp
  qed
qed

lemma strings_TrimSpace_token_right:
  assumes t: "t \<in> set spaceSeqs"
  shows "strings_TrimSpace (l @ t) = strings_TrimSpace l"
  unfolding strings_TrimSpace_def trimLeftSpace_append_token [OF t]
  by (simp add: trimRightSpace_token [OF t])

lemma refLines_token_left:
  assumes t: "t \<in> set spaceSeqs"
  shows "refLines (t @ s) = refLines s"
proof (cases "t = NL")
  case True
  have "strings_Split (NL @ s) NL = [] # strings_Split s NL"
    using strings_Split_char_append [of NL s "CHR 0x0A"] hd_tl_strings_Split [of s]
    by (simp add: strings_Split_NL_NL [unfolded NL_def] NL_def)
  with True show ?thesis by (simp add: refLines_def)
next
  case False
  have "strings_Split (t @ s) NL =
          (t @ hd (strings_Split s NL)) # tl (strings_Split s NL)"
    using strings_Split_char_append [of t s "CHR 0x0A"] strings_Split_token [OF t False]
    by (simp add: NL_def)
  then have "map strings_TrimSpace (strings_Split (t @ s) NL) =
      map strings_TrimSpace (hd (strings_Split s NL) # tl (strings_Split s NL))"
    by (simp add: strings_TrimSpace_token_left [OF t])
  then show ?thesis by (simp add: refLines_def hd_tl_strings_Split)
qed

lemma refLines_token_right:
  assumes t: "t \<in> set spaceSeqs"
  shows "refLines (s @ t) = refLines s"
proof (cases "t = NL")
  case True
  have "strings_Split (s @ NL) NL = (butlast (strings_Split s NL) @ [last (strings_Split s NL)]) @ [[]]"
    using strings_Split_char_append [of s NL "CHR 0x0A"]
    by (simp add: strings_Split_NL_NL [unfolded NL_def] NL_def)
  then have "strings_Split (s @ NL) NL = strings_Split s NL @ [[]]"
    by (simp only: butlast_last_strings_Split)
  with True show ?thesis by (simp add: refLines_def)
next
  case False
  have "strings_Split (s @ t) NL =
          butlast (strings_Split s NL) @ [last (strings_Split s NL) @ t]"
    using strings_Split_char_append [of s t "CHR 0x0A"] strings_Split_token [OF t False]
    by (simp add: NL_def)
  then have "map strings_TrimSpace (strings_Split (s @ t) NL) =
      map strings_TrimSpace (butlast (strings_Split s NL) @ [last (strings_Split s NL)])"
    by (simp add: strings_TrimSpace_token_right [OF t])
  then show ?thesis by (simp only: refLines_def butlast_last_strings_Split)
qed

lemma refLines_trimLeftSpace: "refLines (trimLeftSpace s) = refLines s"
proof (induction s rule: trimLeftSpace.induct)
  case (1 s)
  show ?case
  proof (cases "leadingSpace s")
    case None
    then show ?thesis by (simp add: trimLeftSpace_fix)
  next
    case (Some t)
    then have t: "t \<in> set spaceSeqs" "prefix t s" by (auto dest: leadingSpace_SomeD)
    then obtain s' where s': "s = t @ s'" by (auto simp: prefix_def)
    have "refLines (trimLeftSpace s) = refLines (trimLeftSpace (drop (length t) s))"
      using Some by (simp add: trimLeftSpace.simps [of s])
    also have "\<dots> = refLines (drop (length t) s)" using 1 [OF Some] .
    also have "\<dots> = refLines s" unfolding s' by (simp add: refLines_token_left [OF t(1)])
    finally show ?thesis .
  qed
qed

lemma refLines_trimRightSpace: "refLines (trimRightSpace s) = refLines s"
proof (induction s rule: trimRightSpace.induct)
  case (1 s)
  show ?case
  proof (cases "trailingSpace s")
    case None
    then show ?thesis by (simp add: trimRightSpace_fix)
  next
    case (Some t)
    then have t: "t \<in> set spaceSeqs" "suffix t s" by (auto dest: trailingSpace_SomeD)
    then obtain s' where s': "s = s' @ t" by (auto simp: suffix_def)
    have "refLines (trimRightSpace s) = refLines (trimRightSpace (take (length s - length t) s))"
      using Some by (simp add: trimRightSpace.simps [of s])
    also have "\<dots> = refLines (take (length s - length t) s)" using 1 [OF Some] .
    also have "\<dots> = refLines s" unfolding s' by (simp add: refLines_token_right [OF t(1)])
    finally show ?thesis .
  qed
qed

lemma refLines_strings_TrimSpace: "refLines (strings_TrimSpace s) = refLines s"
  by (simp add: strings_TrimSpace_def refLines_trimRightSpace refLines_trimLeftSpace)

lemma references_loop:
  "foldl (\<lambda>references line.
            let trimmed = strings_TrimSpace line in
            if trimmed \<noteq> [] then references @ [trimmed] else references) acc ls =
   acc @ filter (\<lambda>l. l \<noteq> []) (map strings_TrimSpace ls)"
  by (induction ls arbitrary: acc) (simp_all add: Let_def)

section \<open>The claims\<close>

text \<open>Evaluating \<^verbatim>\<open>strings.TrimSpace\<close> on a given string.\<close>

lemmas trim_eval = strings_TrimSpace_def trimLeftSpace.simps trimRightSpace.simps
  leadingSpace_def trailingSpace_def spaceSeqs_def suffix_to_prefix

lemma marker_first:
  assumes "\<not> sublist ''References:'' x"
  shows "strings_Split (x @ ''References:'' @ y) ''References:'' =
           x # strings_Split y ''References:''"
proof -
  have "CHR '':'' \<notin> set ''References''" by simp
  from strings_Split_first [OF this, of x y] assms show ?thesis by simp
qed

subsection \<open>C1\<close>

text \<open>
  C1 says that the text is split at the first \<^verbatim>\<open>References:\<close> and that all of the text
  after it gives the reference list. The program splits at every occurrence of the marker
  and reads the second part only: with a second marker in the text, what follows that
  second marker is dropped. At \<^verbatim>\<open>A References: B References: C\<close> the part after the first
  marker has the one line \<^verbatim>\<open>B References: C\<close>, and the program returns the list with
  the one entry \<^verbatim>\<open>B\<close>.
\<close>

theorem C1_counterexample:
  "\<not> sublist ''References:'' ''A '' \<and>
   parseResponseAndReferences (''A '' @ ''References:'' @ '' B References: C'') =
     (''A'', [''B'']) \<and>
   refLines '' B References: C'' = [''B References: C'']"
proof -
  have "\<not> sublist ''References:'' ''A ''"
    by (simp add: sublist_Cons_right)
  moreover have "strings_Split (''A '' @ ''References:'' @ '' B References: C'') ''References:'' =
      [''A '', '' B '', '' C'']"
    by (simp add: strings_Split.simps)
  then have "parseResponseAndReferences (''A '' @ ''References:'' @ '' B References: C'') =
      (strings_TrimSpace ''A '', refLines (strings_TrimSpace '' B ''))"
    unfolding parseResponseAndReferences_def
    by (simp add: references_loop refLines_def del: append.simps)
  moreover have "strings_TrimSpace ''A '' = ''A''" by (simp add: trim_eval)
  moreover have "strings_TrimSpace '' B '' = ''B''" by (simp add: trim_eval)
  moreover have "refLines ''B'' = [''B'']"
    by (simp add: refLines_def strings_Split.simps NL_def trim_eval)
  moreover have "refLines '' B References: C'' = [''B References: C'']"
    by (simp add: refLines_def strings_Split.simps NL_def trim_eval)
  ultimately show ?thesis by simp
qed

text \<open>
  C1, amended. Let the text be \<open>a\<close>, the marker \<^verbatim>\<open>References:\<close>, and \<open>c\<close>, where neither
  \<open>a\<close> nor \<open>c\<close> contains the marker, possibly followed by a second marker and any text \<open>d\<close>.
  Then the answer is \<open>a\<close> trimmed, and the reference list is made of the lines of \<open>c\<close>, the
  part between the first marker and the second one (or the end of the text): each line
  trimmed, blank lines dropped, in their order.
\<close>

theorem C1_split_at_marker:
  assumes a: "\<not> sublist ''References:'' a"
    and c: "\<not> sublist ''References:'' c"
    and tx: "content = a @ ''References:'' @ c \<or>
             content = a @ ''References:'' @ c @ ''References:'' @ d"
  shows "parseResponseAndReferences content = (strings_TrimSpace a, refLines c)"
proof -
  have "\<exists>rest. strings_Split content ''References:'' = a # c # rest"
    using tx
  proof
    assume "content = a @ ''References:'' @ c"
    then show ?thesis
      using marker_first [OF a, of c] strings_Split_none [OF c] by simp
  next
    assume "content = a @ ''References:'' @ c @ ''References:'' @ d"
    then show ?thesis
      using marker_first [OF a, of "c @ ''References:'' @ d"] marker_first [OF c, of d]
      by simp
  qed
  then obtain rest where parts: "strings_Split content ''References:'' = a # c # rest"
    by blast
  show ?thesis
    unfolding parseResponseAndReferences_def parts
    by (simp add: references_loop refLines_strings_TrimSpace [unfolded refLines_def]
        refLines_def)
qed

theorem C1_split_at_marker_witness:
  "\<not> sublist ''References:'' ''X '' \<and>
   \<not> sublist ''References:'' ('' a'' @ NL @ '' '' @ NL @ ''b '') \<and>
   parseResponseAndReferences
     (''X '' @ ''References:'' @ ('' a'' @ NL @ '' '' @ NL @ ''b '') @ ''References:'' @ '' z'') =
     (''X'', [''a'', ''b''])"
proof -
  have a: "\<not> sublist ''References:'' ''X ''"
    by (simp add: sublist_Cons_right)
  have c: "\<not> sublist ''References:'' ('' a'' @ NL @ '' '' @ NL @ ''b '')"
    by (simp add: sublist_Cons_right NL_def)
  have t: "strings_TrimSpace ''X '' = ''X''" by (simp add: trim_eval)
  have r: "refLines ('' a'' @ NL @ '' '' @ NL @ ''b '') = [''a'', ''b'']"
    by (simp add: refLines_def strings_Split.simps NL_def trim_eval)
  show ?thesis
    using C1_split_at_marker [OF a c, of
        "''X '' @ ''References:'' @ ('' a'' @ NL @ '' '' @ NL @ ''b '') @ ''References:'' @ '' z''"
        "'' z''"] a c
    by (simp only: t r simp_thms)
qed

subsection \<open>C2\<close>

text \<open>
  C2 says that a text without the marker is returned trimmed. The program returns it as it
  is: \<^verbatim>\<open>" hi "\<close> comes back with its two spaces, while trimmed it is \<^verbatim>\<open>"hi"\<close>.
\<close>

theorem C2_counterexample:
  "\<not> sublist ''References:'' '' hi '' \<and>
   parseResponseAndReferences '' hi '' = ('' hi '', []) \<and>
   strings_TrimSpace '' hi '' = ''hi''"
proof -
  have "\<not> sublist ''References:'' '' hi ''"
    by (simp add: sublist_Cons_right)
  moreover have "parseResponseAndReferences '' hi '' = ('' hi '', [])"
    by (simp add: parseResponseAndReferences_def strings_Split.simps)
  moreover have "strings_TrimSpace '' hi '' = ''hi''"
    by (simp add: trim_eval)
  ultimately show ?thesis by simp
qed

text \<open>
  C2, amended. For a text that does not contain \<^verbatim>\<open>References:\<close> the program returns the
  text itself, unchanged, and the empty reference list.
\<close>

theorem C2_no_marker:
  assumes "\<not> sublist ''References:'' content"
  shows "parseResponseAndReferences content = (content, [])"
  using strings_Split_none [OF assms]
  by (simp add: parseResponseAndReferences_def)

theorem C2_no_marker_witness:
  "\<not> sublist ''References:'' '' See the references below. '' \<and>
   parseResponseAndReferences '' See the references below. '' =
     ('' See the references below. '', [])"
proof -
  have h: "\<not> sublist ''References:'' '' See the references below. ''"
    by (simp add: sublist_Cons_right)
  from C2_no_marker [OF h] h show ?thesis by simp
qed

subsection \<open>C3\<close>

text \<open>
  C3: on \<^verbatim>\<open>"Answer body\nReferences:\n1. A\n\n2. B\n"\<close> the program returns the answer
  \<^verbatim>\<open>"Answer body"\<close> and the references \<^verbatim>\<open>"1. A"\<close>, \<^verbatim>\<open>"2. B"\<close>.
\<close>

theorem C3_example:
  "parseResponseAndReferences
     (''Answer body'' @ NL @ ''References:'' @ NL @ ''1. A'' @ NL @ NL @ ''2. B'' @ NL) =
   (''Answer body'', [''1. A'', ''2. B''])"
proof -
  let ?a = "''Answer body'' @ NL" and ?b = "NL @ ''1. A'' @ NL @ NL @ ''2. B'' @ NL"
  have sp: "strings_Split
      (''Answer body'' @ NL @ ''References:'' @ NL @ ''1. A'' @ NL @ NL @ ''2. B'' @ NL)
      ''References:'' = [?a, ?b]"
    by (simp add: strings_Split.simps NL_def)
  have t0: "strings_TrimSpace ?a = ''Answer body''"
    by (simp add: trim_eval NL_def)
  have t1: "strings_TrimSpace ?b = ''1. A'' @ NL @ NL @ ''2. B''"
    by (simp add: trim_eval NL_def)
  have ls: "strings_Split (''1. A'' @ NL @ NL @ ''2. B'') NL = [''1. A'', [], ''2. B'']"
    by (simp add: strings_Split.simps NL_def)
  have l1: "strings_TrimSpace ''1. A'' = ''1. A''" by (simp add: trim_eval)
  have l3: "strings_TrimSpace ''2. B'' = ''2. B''" by (simp add: trim_eval)
  show ?thesis
    unfolding parseResponseAndReferences_def sp
    by (simp add: t0 t1 ls l1 l3 del: append.simps)
qed

subsection \<open>C4\<close>

text \<open>
  C4: on \<^verbatim>\<open>"X References: \n  \n Source one  "\<close> the program returns the answer
  \<^verbatim>\<open>"X"\<close> and the one reference \<^verbatim>\<open>"Source one"\<close>.
\<close>

theorem C4_example:
  "parseResponseAndReferences
     (''X References: '' @ NL @ ''  '' @ NL @ '' Source one  '') =
   (''X'', [''Source one''])"
proof -
  let ?b = "'' '' @ NL @ ''  '' @ NL @ '' Source one  ''"
  have sp: "strings_Split (''X References: '' @ NL @ ''  '' @ NL @ '' Source one  '')
      ''References:'' = [''X '', ?b]"
    by (simp add: strings_Split.simps NL_def)
  have t0: "strings_TrimSpace ''X '' = ''X''"
    by (simp add: trim_eval)
  have t1: "strings_TrimSpace ?b = ''Source one''"
    by (simp add: trim_eval NL_def)
  have ls: "strings_Split ''Source one'' NL = [''Source one'']"
    by (simp add: strings_Split.simps NL_def)
  have l1: "strings_TrimSpace ''Source one'' = ''Source one''" by (simp add: trim_eval)
  show ?thesis
    unfolding parseResponseAndReferences_def sp
    by (simp add: t0 t1 ls l1 del: append.simps)
qed

subsection \<open>C5\<close>




subsection \<open>C6\<close>

text \<open>
  C6: when the request has gone upstream and the answer decodes to an
  \<^verbatim>\<open>AzureResponse\<close> whose choices are empty, the handler replies with status 500 and the
  message \<^verbatim>\<open>No response choices returned\<close>; it writes no \<^verbatim>\<open>ChatResponse\<close>.
\<close>

theorem C6_no_choices:
  assumes "Decode W body = Inr chatRequest"
    and "Marshal W (requestData (Getenv W) (Message chatRequest)) = Inr jsonData"
    and "http_NewRequest W ''POST'' (Getenv W ''AZURE_ENDPOINT'') jsonData = Inr req0"
    and "Do W (Header_Set ''api-key'' (Getenv W ''AZURE_API_KEY'')
                 (Header_Set ''Content-Type'' ''application/json'' req0)) = Inr resp"
    and "BodyBytes resp = Inr bytes"
    and "Unmarshal W bytes = Inr azureResponse"
    and "Choices azureResponse = []"
  shows "reply (chatHandler W body) = HttpError ''No response choices returned'' 500 \<and>
         status (reply (chatHandler W body)) = 500 \<and>
         (\<forall>chatResponse. reply (chatHandler W body) \<noteq> JsonBody chatResponse)"
  using assms
  by (simp add: chatHandler_def Let_def StatusInternalServerError_def)

theorem C6_no_choices_witness:
  "Decode (exampleWorld (Inr \<lparr>Message = ''hi''\<rparr>) exampleEnv (Inr noChoices)) exampleBody =
     Inr \<lparr>Message = ''hi''\<rparr> \<and>
   Unmarshal (exampleWorld (Inr \<lparr>Message = ''hi''\<rparr>) exampleEnv (Inr noChoices)) ''{}'' =
     Inr noChoices \<and>
   Choices noChoices = [] \<and>
   reply (chatHandler (exampleWorld (Inr \<lparr>Message = ''hi''\<rparr>) exampleEnv (Inr noChoices))
            exampleBody) =
     HttpError ''No response choices returned'' 500"
proof -
  let ?W = "exampleWorld (Inr \<lparr>Message = ''hi''\<rparr>) exampleEnv (Inr noChoices)"
  let ?req0 = "\<lparr>Method = ''POST'', URL = ''https://example.test/chat'', Header = [],
               Body = ''{}''\<rparr>"
  have d: "Decode ?W exampleBody = Inr \<lparr>Message = ''hi''\<rparr>"
    by (simp add: exampleWorld_def)
  have m: "Marshal ?W (requestData (Getenv ?W) (Message \<lparr>Message = ''hi''\<rparr>)) = Inr ''{}''"
    by (simp add: exampleWorld_def)
  have n: "http_NewRequest ?W ''POST'' (Getenv ?W ''AZURE_ENDPOINT'') ''{}'' = Inr ?req0"
    by (simp add: exampleWorld_def exampleEnv_def http_NewRequest_def)
  have c: "Do ?W (Header_Set ''api-key'' (Getenv ?W ''AZURE_API_KEY'')
                    (Header_Set ''Content-Type'' ''application/json'' ?req0)) =
           Inr \<lparr>StatusCode = 200, BodyBytes = Inr ''{}''\<rparr>"
    by (simp add: exampleWorld_def)
  have b: "BodyBytes \<lparr>StatusCode = 200, BodyBytes = Inr ''{}''\<rparr> = Inr ''{}''"
    by simp
  have u: "Unmarshal ?W ''{}'' = Inr noChoices"
    by (simp add: exampleWorld_def)
  have e: "Choices noChoices = []"
    by (simp add: noChoices_def)
  from C6_no_choices [OF d m n c b u e] d u e show ?thesis by simp
qed

subsection \<open>C7\<close>

text \<open>
  C7: when the body of the request does not decode, the handler replies with status 400
  and the message \<^verbatim>\<open>Invalid request payload\<close> and does nothing else: no upstream call, no
  log line.
\<close>

theorem C7_bad_request:
  assumes "Decode W body = Inl err"
  shows "chatHandler W body =
           \<lparr>reply = HttpError ''Invalid request payload'' 400, calls = [], logged = [],
            closed = False\<rparr>"
  using assms by (simp add: chatHandler_def StatusBadRequest_def)

theorem C7_bad_request_witness:
  "Decode (exampleWorld (Inl (Error ''invalid character'')) exampleEnv (Inr noChoices))
     ''not json'' = Inl (Error ''invalid character'') \<and>
   chatHandler (exampleWorld (Inl (Error ''invalid character'')) exampleEnv (Inr noChoices))
     ''not json'' =
     \<lparr>reply = HttpError ''Invalid request payload'' 400, calls = [], logged = [],
      closed = False\<rparr>"
proof -
  have d: "Decode (exampleWorld (Inl (Error ''invalid character'')) exampleEnv (Inr noChoices))
      ''not json'' = Inl (Error ''invalid character'')"
    by (simp add: exampleWorld_def)
  from C7_bad_request [OF d] d show ?thesis by simp
qed

subsection \<open>C8\<close>



subsection \<open>C9\<close>



subsection \<open>C10\<close>

text \<open>
  C10: for every text, each entry of the reference list is a non-empty string that
  trimming leaves unchanged, and the answer does not contain \<^verbatim>\<open>References:\<close>.
\<close>

theorem C10_references_trimmed:
  "(\<forall>r \<in> set (snd (parseResponseAndReferences content)).
      r \<noteq> [] \<and> strings_TrimSpace r = r) \<and>
   \<not> sublist ''References:'' (fst (parseResponseAndReferences content))"
proof (cases "strings_Index content ''References:''")
  case None
  then have "\<not> sublist ''References:'' content" by (simp add: strings_Index_None_iff)
  moreover from this have "parseResponseAndReferences content = (content, [])"
    using strings_Split_none [of "CHR ''R''" "''eferences:''" content]
    by (simp add: parseResponseAndReferences_def)
  ultimately show ?thesis by simp
next
  case (Some m)
  define rest where "rest = strings_Split (drop (m + length ''References:'') content) ''References:''"
  have "rest \<noteq> []" unfolding rest_def by (rule strings_Split_nonempty)
  then obtain c rest' where rest: "rest = c # rest'" by (cases rest) auto
  have parts: "strings_Split content ''References:'' = take m content # c # rest'"
    using Some rest unfolding rest_def by (simp add: strings_Split.simps [of content])
  have res: "parseResponseAndReferences content =
      (strings_TrimSpace (take m content), refLines (strings_TrimSpace c))"
    unfolding parseResponseAndReferences_def parts
    by (simp add: references_loop refLines_def)
  have "\<not> sublist ''References:'' (take m content)"
    using strings_Index_take_free [OF Some] .
  then have "\<not> sublist ''References:'' (strings_TrimSpace (take m content))"
    using sublist_strings_TrimSpace [of "take m content"] sublist_order.order_trans by blast
  moreover have "r \<noteq> [] \<and> strings_TrimSpace r = r"
    if "r \<in> set (refLines (strings_TrimSpace c))" for r
    using that by (auto simp: refLines_def strings_TrimSpace_idem)
  ultimately show ?thesis unfolding res by simp
qed

theorem C10_references_trimmed_witness:
  "snd (parseResponseAndReferences (''X References: '' @ NL @ ''  '' @ NL @ '' Source one  '')) =
     [''Source one''] \<and>
   ''Source one'' \<noteq> [] \<and> strings_TrimSpace ''Source one'' = ''Source one'' \<and>
   \<not> sublist ''References:''
     (fst (parseResponseAndReferences (''X References: '' @ NL @ ''  '' @ NL @ '' Source one  '')))"
proof -
  let ?b = "'' '' @ NL @ ''  '' @ NL @ '' Source one  ''"
  have sp: "strings_Split (''X References: '' @ NL @ ''  '' @ NL @ '' Source one  '')
      ''References:'' = [''X '', ?b]"
    by (simp add: strings_Split.simps NL_def)
  have t0: "strings_TrimSpace ''X '' = ''X''"
    by (simp add: trim_eval)
  have t1: "strings_TrimSpace ?b = ''Source one''"
    by (simp add: trim_eval NL_def)
  have ls: "strings_Split ''Source one'' NL = [''Source one'']"
    by (simp add: strings_Split.simps NL_def)
  have l1: "strings_TrimSpace ''Source one'' = ''Source one''" by (simp add: trim_eval)
  have e: "parseResponseAndReferences (''X References: '' @ NL @ ''  '' @ NL @ '' Source one  '') =
      (''X'', [''Source one''])"
    unfolding parseResponseAndReferences_def sp
    by (simp add: t0 t1 ls l1 del: append.simps)
  show ?thesis
    using C10_references_trimmed
      [of "''X References: '' @ NL @ ''  '' @ NL @ '' Source one  ''"]
    unfolding e by simp
qed

end
